theory Spec2Isabelle
  imports Complex_Main "HOL-Library.Multiset"
begin

section \<open>Marley-Claude memory bridge: the structural analyzer and the node aligner\<close>

text \<open>
  The development embeds \<^verbatim>\<open>src/memory-sync/marley_claude_bridge.py\<close>.

  Conventions of the embedding.
  \<^item> A Python \<^verbatim>\<open>str\<close> is a \<^typ>\<open>string\<close>. Every character the code inspects
    (\<^verbatim>\<open>#\<close>, the brackets, the parentheses and the newline) is ASCII, and no byte of a
    multi-byte UTF-8 sequence is an ASCII byte, so splitting, searching and the two
    regular expressions behave on the bytes as they do on the code points.
  \<^item> A Python \<^verbatim>\<open>float\<close> is a \<^typ>\<open>rat\<close>: the score is the exact quotient that
    Python rounds to the nearest double. The numerator is a sum of integers and of one
    multiple of one half, which a double holds exactly.
  \<^item> An exception is a value: a function that can raise returns
    \<open>py_error + 'a\<close>, with \<open>Inl\<close> for the exception.
\<close>

subsection \<open>Strings: \<^verbatim>\<open>split\<close>, \<^verbatim>\<open>startswith\<close>, \<^verbatim>\<open>in\<close>\<close>

text \<open>\<^verbatim>\<open>content.split('\n')\<close>: the pieces between the newlines. The result is never
  empty: a string without a newline, the empty string too, is one piece.\<close>

fun split_nl :: "string \<Rightarrow> string list" where
  "split_nl [] = [[]]"
| "split_nl (c # cs) =
     (if c = CHR 0x0A then [] # split_nl cs
      else (case split_nl cs of
              [] \<Rightarrow> [[c]]
            | l # ls \<Rightarrow> (c # l) # ls))"

text \<open>\<^verbatim>\<open>l.startswith('#')\<close>.\<close>

fun startswith_hash :: "string \<Rightarrow> bool" where
  "startswith_hash [] = False"
| "startswith_hash (c # cs) = (c = CHR ''#'')"

text \<open>\<^verbatim>\<open>sub in l\<close> for strings: \<open>sub\<close> occurs in \<open>l\<close> as a contiguous piece.\<close>

fun is_prefix :: "string \<Rightarrow> string \<Rightarrow> bool" where
  "is_prefix [] s = True"
| "is_prefix (p # ps) [] = False"
| "is_prefix (p # ps) (c # cs) = (p = c \<and> is_prefix ps cs)"

fun str_in :: "string \<Rightarrow> string \<Rightarrow> bool" where
  "str_in sub [] = (sub = [])"
| "str_in sub (c # cs) = (is_prefix sub (c # cs) \<or> str_in sub cs)"

subsection \<open>The two regular expressions and \<^verbatim>\<open>re.findall\<close>\<close>

text \<open>
  Both patterns are sequences of single-character items: a literal character
  (\<^verbatim>\<open>\[\<close>), a negated class of one character repeated at least once
  (\<^verbatim>\<open>[^\]]+\<close>), and the same inside the pattern's only capture group
  (\<^verbatim>\<open>([^\]]+)\<close>).
\<close>

datatype rx_item =
    Lit char
  | Many_Not char
  | Group_Many_Not char

text \<open>\<^verbatim>\<open>r'\[\[([^\]]+)\]\]'\<close> and \<^verbatim>\<open>r'\[([^\]]+)\]\([^\)]+\)'\<close>.\<close>

definition wikilink_rx :: "rx_item list" where
  "wikilink_rx =
     [Lit CHR ''['', Lit CHR ''['', Group_Many_Not CHR '']'', Lit CHR '']'', Lit CHR '']'']"

definition regular_link_rx :: "rx_item list" where
  "regular_link_rx =
     [Lit CHR ''['', Group_Many_Not CHR '']'', Lit CHR '']'', Lit CHR ''('',
      Many_Not CHR '')'', Lit CHR '')'']"

text \<open>The first alternative that succeeds, in the order tried.\<close>

fun first_some :: "('a \<Rightarrow> 'b option) \<Rightarrow> 'a list \<Rightarrow> 'b option" where
  "first_some f [] = None"
| "first_some f (k # ks) = (case f k of Some y \<Rightarrow> Some y | None \<Rightarrow> first_some f ks)"

text \<open>The lengths a greedy \<^verbatim>\<open>[^c]+\<close> tries at the head of \<open>s\<close>: the longest run of
  characters other than \<open>c\<close> first, then each shorter one down to a single character.\<close>

definition greedy_lengths :: "char \<Rightarrow> string \<Rightarrow> nat list" where
  "greedy_lengths c s = rev [1 ..< Suc (length (takeWhile (\<lambda>x. x \<noteq> c) s))]"

text \<open>
  A backtracking match of a pattern at the head of \<open>s\<close>: the text of the capture group
  and the input left after the match, or \<open>None\<close> when the pattern does not match there.
\<close>

fun rx_match :: "rx_item list \<Rightarrow> string \<Rightarrow> (string \<times> string) option" where
  "rx_match [] s = Some ([], s)"
| "rx_match (Lit c # its) s =
     (case s of
        [] \<Rightarrow> None
      | x # xs \<Rightarrow> if x = c then rx_match its xs else None)"
| "rx_match (Many_Not c # its) s =
     first_some (\<lambda>k. rx_match its (drop k s)) (greedy_lengths c s)"
| "rx_match (Group_Many_Not c # its) s =
     first_some
       (\<lambda>k. case rx_match its (drop k s) of
               None \<Rightarrow> None
             | Some (g, rest) \<Rightarrow> Some (take k s, rest))
       (greedy_lengths c s)"

text \<open>
  \<^verbatim>\<open>re.findall(pattern, s)\<close> for a pattern with one group: the group's text of every
  match, scanning from the left, each search starting where the previous match ended.
  Where the pattern does not match, the scan moves on by one character. A match that
  consumes nothing is recorded and the scan moves on by one character as well; the two
  patterns of this program never match the empty string.
\<close>

function findall :: "rx_item list \<Rightarrow> string \<Rightarrow> string list" where
  "findall its s =
     (case rx_match its s of
        None \<Rightarrow> (case s of [] \<Rightarrow> [] | x # xs \<Rightarrow> findall its xs)
      | Some (g, rest) \<Rightarrow>
          if length rest < length s then g # findall its rest
          else g # (case s of [] \<Rightarrow> [] | x # xs \<Rightarrow> findall its xs))"
  by pat_completeness auto
termination
  by (relation "measure (\<lambda>(its, s). length s)") auto

subsection \<open>The structural analyzer\<close>

datatype py_error = ZeroDivisionError

text \<open>The dictionary \<^verbatim>\<open>analyze_spectral_pattern\<close> returns, one field per key. The keys
  \<^verbatim>\<open>spectral_frequency\<close> and \<^verbatim>\<open>resonance_threads\<close> carry the prefix \<open>sd\<close>: the
  plain names are the fields of a memory node.\<close>

record spectral_data =
  sd_spectral_frequency :: rat
  sd_resonance_threads :: "string list"
  structural_depth :: nat
  connection_density :: rat

text \<open>The three counts of lines 51 to 53, each the length of a list comprehension.\<close>

definition heading_count :: "string list \<Rightarrow> nat" where
  "heading_count lines = length (filter startswith_hash lines)"

definition link_count :: "string list \<Rightarrow> nat" where
  "link_count lines = length (filter (\<lambda>l. str_in ''[['' l \<or> str_in '']('' l) lines)"

definition tag_count :: "string list \<Rightarrow> nat" where
  "tag_count lines =
     length (filter (\<lambda>l. str_in ''#'' l \<and> \<not> startswith_hash l) lines)"

text \<open>The loop of lines 58 to 67: for every line, the wikilink labels, then the labels
  of the regular links, appended to one list.\<close>

fun collect_threads :: "string list \<Rightarrow> string list \<Rightarrow> string list" where
  "collect_threads [] resonance_threads = resonance_threads"
| "collect_threads (line # lines) resonance_threads =
     collect_threads lines
       (resonance_threads @ findall wikilink_rx line @ findall regular_link_rx line)"

text \<open>
  \<^verbatim>\<open>list(set(resonance_threads))\<close>: the distinct elements. Python leaves the order
  of the resulting list unspecified; the model keeps the order of \<^const>\<open>remdups\<close>, and
  the theorems below speak of the elements only.
\<close>

definition list_of_set :: "string list \<Rightarrow> string list" where
  "list_of_set xs = remdups xs"

text \<open>
  \<^verbatim>\<open>analyze_spectral_pattern\<close>. The division of line 55 has no guard, so a line count of
  zero raises there, before anything else is computed; \<open>connection_density\<close> has its own
  guard (\<^verbatim>\<open>if lines else 0\<close>).
\<close>

definition analyze_spectral_pattern :: "string \<Rightarrow> py_error + spectral_data" where
  "analyze_spectral_pattern content =
     (let lines = split_nl content;
          hc = heading_count lines;
          lc = link_count lines;
          tc = tag_count lines
      in if length lines = 0 then Inl ZeroDivisionError
         else
           let spectral_frequency =
                 (of_nat (hc * 2 + lc) + of_nat tc * (1 / 2)) / of_nat (length lines);
               resonance_threads = collect_threads lines []
           in Inr \<lparr> sd_spectral_frequency = spectral_frequency,
                    sd_resonance_threads = list_of_set resonance_threads,
                    structural_depth = hc,
                    connection_density =
                      (if lines \<noteq> [] then of_nat lc / of_nat (length lines) else 0) \<rparr>)"

subsection \<open>Memory nodes and the node aligner\<close>

text \<open>The dataclass \<^verbatim>\<open>MemoryNode\<close>. Its field \<^verbatim>\<open>id\<close> is \<open>node_id\<close> here, \<open>id\<close> being
  the identity function of HOL; a \<^verbatim>\<open>datetime\<close> is a point on a discrete time line.\<close>

type_synonym datetime = nat

record memory_node =
  node_id :: string
  content :: string
  markdown_format :: string
  spectral_frequency :: rat
  resonance_threads :: "string list"
  timestamp :: datetime
  source :: string
  harmonization_status :: string

text \<open>The node built at lines 84 to 93 from an input node and its analysis.\<close>

definition aligned_node :: "memory_node \<Rightarrow> spectral_data \<Rightarrow> memory_node" where
  "aligned_node node spectral_data =
     \<lparr> node_id = node_id node,
       content = content node,
       markdown_format = markdown_format node,
       spectral_frequency = sd_spectral_frequency spectral_data,
       resonance_threads = sd_resonance_threads spectral_data,
       timestamp = timestamp node,
       source = source node,
       harmonization_status = ''aligned'' \<rparr>"

text \<open>The loop of lines 80 to 95; an exception of the analyzer leaves the loop.\<close>

fun align_loop :: "memory_node list \<Rightarrow> memory_node list \<Rightarrow> py_error + memory_node list" where
  "align_loop [] aligned_nodes = Inr aligned_nodes"
| "align_loop (node # nodes) aligned_nodes =
     (case analyze_spectral_pattern (content node) of
        Inl e \<Rightarrow> Inl e
      | Inr spectral_data \<Rightarrow>
          align_loop nodes (aligned_nodes @ [aligned_node node spectral_data]))"

text \<open>
  \<^verbatim>\<open>sorted(xs, key=k, reverse=True)\<close>: Python's sort is stable, and with
  \<^verbatim>\<open>reverse=True\<close> elements with equal keys still keep their original order. The
  model is the insertion sort that has this behaviour: an element is placed before the
  first element of the sorted rest whose key is not greater than its own.
\<close>

fun insort_desc :: "('a \<Rightarrow> rat) \<Rightarrow> 'a \<Rightarrow> 'a list \<Rightarrow> 'a list" where
  "insort_desc k x [] = [x]"
| "insort_desc k x (y # ys) =
     (if k y \<le> k x then x # y # ys else y # insort_desc k x ys)"

fun sorted_reverse :: "('a \<Rightarrow> rat) \<Rightarrow> 'a list \<Rightarrow> 'a list" where
  "sorted_reverse k [] = []"
| "sorted_reverse k (x # xs) = insort_desc k x (sorted_reverse k xs)"

definition align_memory_nodes :: "memory_node list \<Rightarrow> py_error + memory_node list" where
  "align_memory_nodes nodes =
     (case align_loop nodes [] of
        Inl e \<Rightarrow> Inl e
      | Inr aligned_nodes \<Rightarrow> Inr (sorted_reverse spectral_frequency aligned_nodes))"

subsection \<open>Building the nodes of a synchronization run\<close>

text \<open>A record of the external store: \<^verbatim>\<open>record['id']\<close> and \<^verbatim>\<open>record['fields']\<close>.\<close>

record airtable_record =
  record_id :: string
  record_fields :: "string \<rightharpoonup> string"

text \<open>
  The loop of lines 175 to 188 of \<^verbatim>\<open>sync_memory_bidirectional\<close>. Each node reads the
  clock once (\<^verbatim>\<open>datetime.now(timezone.utc)\<close>): \<open>clock t\<close> is the time of reading
  number \<open>t\<close>, and the number of readings made is passed along. The test
  \<^verbatim>\<open>'Content' in fields\<close> and the lookup \<^verbatim>\<open>fields['Content']\<close> are one case
  distinction; \<^verbatim>\<open>fields.get('Format', 'unknown')\<close> is the other.
\<close>

fun marley_nodes_loop ::
  "(nat \<Rightarrow> datetime) \<Rightarrow> nat \<Rightarrow> airtable_record list \<Rightarrow> memory_node list
     \<Rightarrow> memory_node list \<times> nat" where
  "marley_nodes_loop clock t [] marley_nodes = (marley_nodes, t)"
| "marley_nodes_loop clock t (r # marley_records) marley_nodes =
     (case record_fields r ''Content'' of
        None \<Rightarrow> marley_nodes_loop clock t marley_records marley_nodes
      | Some c \<Rightarrow>
          marley_nodes_loop clock (Suc t) marley_records
            (marley_nodes @
              [\<lparr> node_id = record_id r,
                 content = c,
                 markdown_format =
                   (case record_fields r ''Format'' of None \<Rightarrow> ''unknown'' | Some f \<Rightarrow> f),
                 spectral_frequency = 0,
                 resonance_threads = [],
                 timestamp = clock t,
                 source = ''marley'',
                 harmonization_status = ''pending'' \<rparr>]))"

text \<open>Lines 173 to 191: the nodes of the fetched records, then the aligner on them.\<close>

definition build_marley_nodes :: "(nat \<Rightarrow> datetime) \<Rightarrow> airtable_record list \<Rightarrow> memory_node list" where
  "build_marley_nodes clock marley_records = fst (marley_nodes_loop clock 0 marley_records [])"

definition sync_aligned_nodes ::
  "(nat \<Rightarrow> datetime) \<Rightarrow> airtable_record list \<Rightarrow> py_error + memory_node list" where
  "sync_aligned_nodes clock marley_records =
     align_memory_nodes (build_marley_nodes clock marley_records)"

subsection \<open>Harmonization through the text-generation collaborator\<close>

text \<open>
  What a call can raise. \<open>Raised_Exception\<close> is an instance of Python's
  \<^verbatim>\<open>Exception\<close>, the class every error derives from, with the text \<^verbatim>\<open>str(e)\<close>;
  \<open>Raised_Exit\<close> is one of the exceptions outside that class, which signal an exit
  rather than a failure (\<^verbatim>\<open>KeyboardInterrupt\<close>, \<^verbatim>\<open>SystemExit\<close>, a cancelled task).
  The clause \<^verbatim>\<open>except Exception\<close> catches the first kind only.
\<close>

datatype raised =
    Raised_Exception string
  | Raised_Exit string

text \<open>A block of the collaborator's reply; \<^verbatim>\<open>.text\<close> exists on a text block only.\<close>

datatype content_block =
    Text_Block string
  | Other_Block

text \<open>The two dictionaries \<^verbatim>\<open>harmonize_markdown_content\<close> returns.\<close>

datatype harmonization =
    Harmonized
      (original_content: string)
      (harmonized_content: string)
      (target_format: string)
      (spectral_analysis: spectral_data)
      (harmonization_timestamp: string)
  | Fallback
      (error: string)
      (fallback_content: string)

definition newline :: string where
  "newline = [CHR 0x0A]"

definition indent :: string where
  "indent = ''        ''"

text \<open>The f-string of lines 220 to 236; its first visible characters are the four
  bytes of U+1F300.\<close>

definition harmonize_prompt :: "string \<Rightarrow> string \<Rightarrow> string" where
  "harmonize_prompt content' target_format' =
     newline @ indent @ [CHR 0xF0, CHR 0x9F, CHR 0x8C, CHR 0x80]
       @ '' EchoDaemon Harmonization Request'' @ newline
     @ indent @ newline
     @ indent @ ''Please harmonize this markdown content for '' @ target_format'
       @ '' compatibility:'' @ newline
     @ indent @ newline
     @ indent @ ''---'' @ newline
     @ indent @ content' @ newline
     @ indent @ ''---'' @ newline
     @ indent @ newline
     @ indent @ ''Requirements:'' @ newline
     @ indent @ ''- Preserve semantic meaning'' @ newline
     @ indent @ ''- Convert to '' @ target_format' @ ''-style syntax'' @ newline
     @ indent @ ''- Maintain spectral resonance (structural coherence)'' @ newline
     @ indent @ ''- Enable cross-platform compatibility'' @ newline
     @ indent @ newline
     @ indent @ ''Return the harmonized content with brief notes on changes made.'' @ newline
     @ indent"

text \<open>
  The body of the \<^verbatim>\<open>try\<close> block, lines 239 to 256. \<open>create\<close> is the collaborator's
  \<^verbatim>\<open>messages.create\<close> as a function of the prompt: it raises or returns the blocks
  of the reply. \<^verbatim>\<open>message.content[0]\<close> raises \<^verbatim>\<open>IndexError\<close> on an empty reply,
  \<^verbatim>\<open>.text\<close> raises \<^verbatim>\<open>AttributeError\<close> on a block without text, and the analyzer's
  division can raise; \<open>now\<close> is \<^verbatim>\<open>datetime.now().isoformat()\<close>.
\<close>

definition harmonize_try ::
  "(string \<Rightarrow> raised + content_block list) \<Rightarrow> string \<Rightarrow> string \<Rightarrow> string
     \<Rightarrow> raised + harmonization" where
  "harmonize_try create now content' target_format' =
     (case create (harmonize_prompt content' target_format') of
        Inl e \<Rightarrow> Inl e
      | Inr message \<Rightarrow>
          (case message of
             [] \<Rightarrow> Inl (Raised_Exception ''list index out of range'')
           | Other_Block # _ \<Rightarrow>
               Inl (Raised_Exception
                 (CHR 0x27 # ''ToolUseBlock'' @ CHR 0x27 # '' object has no attribute ''
                    @ CHR 0x27 # ''text'' @ [CHR 0x27]))
           | Text_Block harmonized # _ \<Rightarrow>
               (case analyze_spectral_pattern harmonized of
                  Inl ZeroDivisionError \<Rightarrow> Inl (Raised_Exception ''float division by zero'')
                | Inr analysis \<Rightarrow>
                    Inr (Harmonized content' harmonized target_format' analysis now))))"

text \<open>\<^verbatim>\<open>harmonize_markdown_content\<close>: the \<^verbatim>\<open>try\<close> block and its handler
  \<^verbatim>\<open>except Exception as e\<close>, lines 258 to 263.\<close>

definition harmonize_markdown_content ::
  "(string \<Rightarrow> raised + content_block list) \<Rightarrow> string \<Rightarrow> string \<Rightarrow> string
     \<Rightarrow> raised + harmonization" where
  "harmonize_markdown_content create now content' target_format' =
     (case harmonize_try create now content' target_format' of
        Inr result \<Rightarrow> Inr result
      | Inl (Raised_Exception msg) \<Rightarrow> Inr (Fallback msg content')
      | Inl (Raised_Exit msg) \<Rightarrow> Inl (Raised_Exit msg))"

subsection \<open>The properties in the words of the specification\<close>

text \<open>
  The definitions of this subsection are not taken from the code: they say what the
  specification says, and the theorems compare the code with them.
\<close>

text \<open>\<^verbatim>\<open>'\n'.join(lines)\<close>, the inverse of splitting.\<close>

fun join_nl :: "string list \<Rightarrow> string" where
  "join_nl [] = []"
| "join_nl [l] = l"
| "join_nl (l # l' # ls) = l @ CHR 0x0A # join_nl (l' # ls)"

definition first_char_is_hash :: "string \<Rightarrow> bool" where
  "first_char_is_hash l = (\<exists>r. l = CHR ''#'' # r)"

definition has_substring :: "string \<Rightarrow> string \<Rightarrow> bool" where
  "has_substring sub l = (\<exists>a b. l = a @ sub @ b)"

definition has_link_marker :: "string \<Rightarrow> bool" where
  "has_link_marker l = (has_substring ''[['' l \<or> has_substring '']('' l)"

definition hash_anywhere :: "string \<Rightarrow> bool" where
  "hash_anywhere l = (\<exists>i. i < length l \<and> l ! i = CHR ''#'')"

definition hash_beyond_first :: "string \<Rightarrow> bool" where
  "hash_beyond_first l = (\<exists>i. 0 < i \<and> i < length l \<and> l ! i = CHR ''#'')"

text \<open>The number of lines, among \<open>ls\<close>, that have the property \<open>P\<close>.\<close>

definition count_lines :: "(string \<Rightarrow> bool) \<Rightarrow> string list \<Rightarrow> nat" where
  "count_lines P ls = card {i. i < length ls \<and> P (ls ! i)}"

text \<open>
  The score as the specification's formula reads it, \<open>(H * 2 + L + T * 0.5) / N\<close>, with
  \<open>T\<close> the number of lines that have a \<^verbatim>\<open>#\<close> at a position other than 0, whether or not
  they start with one.
\<close>

definition claimed_spectral_frequency :: "string \<Rightarrow> rat" where
  "claimed_spectral_frequency c =
     (of_nat (count_lines first_char_is_hash (split_nl c)) * 2
        + of_nat (count_lines has_link_marker (split_nl c))
        + of_nat (count_lines hash_beyond_first (split_nl c)) * (1 / 2))
       / of_nat (length (split_nl c))"

text \<open>A label between wiki-link brackets, and the label of an inline link, as they
  stand in a text.\<close>

definition wikilink_label :: "string \<Rightarrow> string \<Rightarrow> bool" where
  "wikilink_label c t = has_substring (''[['' @ t @ '']]'') c"

definition inline_link_label :: "string \<Rightarrow> string \<Rightarrow> bool" where
  "inline_link_label c t = (\<exists>u. has_substring (''['' @ t @ '']('' @ u @ '')'') c)"

text \<open>The example of the specification's section 8.\<close>

definition example_content :: string where
  "example_content =
     ''# Title'' @ CHR 0x0A # ''See [[Concept]] and [label](url)'' @ CHR 0x0A # ''#tag here''"

text \<open>
  What the specification says of an output node \<open>m\<close> of the aligner and the input node
  \<open>n\<close> it comes from: five fields copied, the status \<^verbatim>\<open>aligned\<close>, and the score and the
  threads those of the analysis of the content.
\<close>

definition aligned_from :: "memory_node \<Rightarrow> memory_node \<Rightarrow> bool" where
  "aligned_from n m =
     (node_id m = node_id n \<and> content m = content n
      \<and> markdown_format m = markdown_format n \<and> timestamp m = timestamp n
      \<and> source m = source n \<and> harmonization_status m = ''aligned''
      \<and> (\<exists>sd. analyze_spectral_pattern (content n) = Inr sd
             \<and> spectral_frequency m = sd_spectral_frequency sd
             \<and> resonance_threads m = sd_resonance_threads sd))"

text \<open>Three nodes for the concrete instances: the scores of their contents are
  \<open>1/4\<close>, \<open>2\<close> and \<open>2\<close>.\<close>

definition node_a :: memory_node where
  "node_a =
     \<lparr> node_id = ''recA'', content = ''plain'' @ CHR 0x0A # ''note #tag'',
       markdown_format = ''obsidian'', spectral_frequency = 0, resonance_threads = [],
       timestamp = 7, source = ''marley'', harmonization_status = ''pending'' \<rparr>"

definition node_b :: memory_node where
  "node_b =
     \<lparr> node_id = ''recB'', content = ''# Title'',
       markdown_format = ''unknown'', spectral_frequency = 9, resonance_threads = [''old''],
       timestamp = 8, source = ''claude'', harmonization_status = ''aligned'' \<rparr>"

definition node_c :: memory_node where
  "node_c =
     \<lparr> node_id = ''recC'', content = ''## Other'',
       markdown_format = ''unknown'', spectral_frequency = 0, resonance_threads = [],
       timestamp = 9, source = ''hybrid'', harmonization_status = ''pending'' \<rparr>"

text \<open>What the aligner returns for the three nodes, in this order.\<close>

definition aligned_abc :: "memory_node list" where
  "aligned_abc =
     [\<lparr> node_id = ''recB'', content = ''# Title'',
        markdown_format = ''unknown'', spectral_frequency = 2, resonance_threads = [],
        timestamp = 8, source = ''claude'', harmonization_status = ''aligned'' \<rparr>,
      \<lparr> node_id = ''recC'', content = ''## Other'',
        markdown_format = ''unknown'', spectral_frequency = 2, resonance_threads = [],
        timestamp = 9, source = ''hybrid'', harmonization_status = ''aligned'' \<rparr>,
      \<lparr> node_id = ''recA'', content = ''plain'' @ CHR 0x0A # ''note #tag'',
        markdown_format = ''obsidian'', spectral_frequency = 1 / 4, resonance_threads = [],
        timestamp = 7, source = ''marley'', harmonization_status = ''aligned'' \<rparr>]"

text \<open>The analyses of the example and of the empty string, as the code computes them.\<close>

definition example_analysis :: spectral_data where
  "example_analysis =
     \<lparr> sd_spectral_frequency = 5 / 3,
       sd_resonance_threads = [''Concept'', ''label''],
       structural_depth = 2,
       connection_density = 1 / 3 \<rparr>"

definition empty_analysis :: spectral_data where
  "empty_analysis =
     \<lparr> sd_spectral_frequency = 0,
       sd_resonance_threads = [],
       structural_depth = 0,
       connection_density = 0 \<rparr>"

text \<open>A record that has a \<^verbatim>\<open>Content\<close> field.\<close>

definition has_content :: "airtable_record \<Rightarrow> bool" where
  "has_content r = (''Content'' \<in> dom (record_fields r))"

text \<open>Three records for the concrete instances; the second has no content.\<close>

definition record_1 :: airtable_record where
  "record_1 = \<lparr> record_id = ''rec1'',
                record_fields = [''Content'' \<mapsto> ''# One'', ''Format'' \<mapsto> ''obsidian''] \<rparr>"

definition record_2 :: airtable_record where
  "record_2 = \<lparr> record_id = ''rec2'', record_fields = [''Format'' \<mapsto> ''obsidian''] \<rparr>"

definition record_3 :: airtable_record where
  "record_3 = \<lparr> record_id = ''rec3'', record_fields = [''Content'' \<mapsto> ''three''] \<rparr>"

text \<open>A collaborator that fails on every prompt.\<close>

definition failing_create :: "string \<Rightarrow> raised + content_block list" where
  "failing_create prompt = Inl (Raised_Exception ''overloaded'')"

section \<open>Lemmas\<close>

subsection \<open>Splitting into lines\<close>

lemma split_nl_not_Nil: "split_nl s \<noteq> []"
  by (induction s) (auto split: list.splits)

lemma length_split_nl: "length (split_nl s) = Suc (length (filter (\<lambda>c. c = CHR 0x0A) s))"
  by (induction s) (auto split: list.splits simp: split_nl_not_Nil)

lemma split_nl_hd_prefix: "split_nl s = h # t \<Longrightarrow> \<exists>b. s = h @ b"
proof (induction s arbitrary: h t)
  case Nil
  then show ?case by simp
next
  case (Cons c cs)
  show ?case
  proof (cases "c = CHR 0x0A")
    case True
    with Cons.prems show ?thesis by simp
  next
    case False
    obtain h' t' where ht: "split_nl cs = h' # t'"
      using split_nl_not_Nil [of cs] by (cases "split_nl cs") auto
    with False Cons.prems have h: "h = c # h'" by simp
    from Cons.IH [OF ht] obtain b where "cs = h' @ b" by blast
    with h show ?thesis by simp
  qed
qed

lemma join_split_nl: "join_nl (split_nl s) = s"
proof (induction s)
  case Nil
  then show ?case by simp
next
  case (Cons c cs)
  obtain h t where ht: "split_nl cs = h # t"
    using split_nl_not_Nil [of cs] by (cases "split_nl cs") auto
  show ?case
  proof (cases "c = CHR 0x0A")
    case True
    with Cons.IH ht show ?thesis by simp
  next
    case False
    with Cons.IH ht show ?thesis by (cases t) auto
  qed
qed

lemma split_nl_no_newline: "l \<in> set (split_nl s) \<Longrightarrow> CHR 0x0A \<notin> set l"
proof (induction s arbitrary: l)
  case Nil
  then show ?case by simp
next
  case (Cons c cs)
  obtain h t where ht: "split_nl cs = h # t"
    using split_nl_not_Nil [of cs] by (cases "split_nl cs") auto
  with Cons show ?case by (auto split: if_splits)
qed

lemma split_nl_infix:
  "l \<in> set (split_nl s) \<Longrightarrow> \<exists>a b. s = a @ l @ b"
proof (induction s arbitrary: l)
  case Nil
  then show ?case by simp
next
  case (Cons c cs)
  show ?case
  proof (cases "c = CHR 0x0A")
    case True
    with Cons.prems have "l = [] \<or> l \<in> set (split_nl cs)" by auto
    then show ?thesis
    proof
      assume "l = []"
      then have "c # cs = [] @ l @ (c # cs)" by simp
      then show ?thesis by blast
    next
      assume "l \<in> set (split_nl cs)"
      with Cons.IH obtain a b where "cs = a @ l @ b" by blast
      then have "c # cs = (c # a) @ l @ b" by simp
      then show ?thesis by blast
    qed
  next
    case False
    obtain h t where ht: "split_nl cs = h # t"
      using split_nl_not_Nil [of cs] by (cases "split_nl cs") auto
    with False Cons.prems have "l = c # h \<or> l \<in> set t" by auto
    then show ?thesis
    proof
      assume l: "l = c # h"
      from split_nl_hd_prefix [OF ht] obtain b where "cs = h @ b" by blast
      then have "c # cs = [] @ l @ b" using l by simp
      then show ?thesis by blast
    next
      assume "l \<in> set t"
      with ht Cons.IH [of l] obtain a b where "cs = a @ l @ b" by auto
      then have "c # cs = (c # a) @ l @ b" by simp
      then show ?thesis by blast
    qed
  qed
qed

subsection \<open>The string tests\<close>

lemma is_prefix_iff: "is_prefix p s \<longleftrightarrow> (\<exists>b. s = p @ b)"
  by (induction p s rule: is_prefix.induct) auto

lemma str_in_iff: "str_in sub s \<longleftrightarrow> (\<exists>a b. s = a @ sub @ b)"
proof (induction s)
  case Nil
  then show ?case by auto
next
  case (Cons c cs)
  show ?case
  proof
    assume "str_in sub (c # cs)"
    then consider "is_prefix sub (c # cs)" | "str_in sub cs" by auto
    then show "\<exists>a b. c # cs = a @ sub @ b"
    proof cases
      case 1
      then obtain b where "c # cs = sub @ b" by (auto simp: is_prefix_iff)
      then have "c # cs = [] @ sub @ b" by simp
      then show ?thesis by blast
    next
      case 2
      then obtain a b where "cs = a @ sub @ b" using Cons.IH by blast
      then have "c # cs = (c # a) @ sub @ b" by simp
      then show ?thesis by blast
    qed
  next
    assume "\<exists>a b. c # cs = a @ sub @ b"
    then obtain a b where ab: "c # cs = a @ sub @ b" by blast
    show "str_in sub (c # cs)"
    proof (cases a)
      case Nil
      then have "is_prefix sub (c # cs)" using ab by (auto simp: is_prefix_iff)
      then show ?thesis by simp
    next
      case (Cons x a')
      then have "cs = a' @ sub @ b" using ab by simp
      then have "str_in sub cs" using Cons.IH by blast
      then show ?thesis by simp
    qed
  qed
qed

lemma startswith_hash_iff: "startswith_hash l \<longleftrightarrow> (\<exists>r. l = CHR ''#'' # r)"
  by (cases l) auto

lemma str_in_hash_iff: "str_in ''#'' l \<longleftrightarrow> CHR ''#'' \<in> set l"
  by (induction l) auto

subsection \<open>Matching the two patterns\<close>

lemma first_some_SomeD: "first_some f ks = Some y \<Longrightarrow> \<exists>k\<in>set ks. f k = Some y"
  by (induction ks) (auto split: option.splits)

lemma greedy_lengths_D:
  assumes "k \<in> set (greedy_lengths c s)"
  shows "0 < k" and "k \<le> length s" and "c \<notin> set (take k s)"
proof -
  let ?n = "length (takeWhile (\<lambda>x. x \<noteq> c) s)"
  from assms have k: "0 < k" "k \<le> ?n" by (auto simp: greedy_lengths_def)
  show "0 < k" by (rule k)
  have "?n \<le> length s" by (rule length_takeWhile_le)
  with k show "k \<le> length s" by simp
  have "take k s = take k (takeWhile (\<lambda>x. x \<noteq> c) s)"
    using k(2) by (metis takeWhile_eq_take take_take min.absorb1 min.commute)
  then have "set (take k s) \<subseteq> set (takeWhile (\<lambda>x. x \<noteq> c) s)"
    by (metis set_take_subset)
  then show "c \<notin> set (take k s)" by (auto dest: set_takeWhileD)
qed

lemma rx_match_Lit_Some:
  "rx_match (Lit c # its) s = Some r \<longleftrightarrow> (\<exists>xs. s = c # xs \<and> rx_match its xs = Some r)"
  by (cases s) auto

lemma rx_match_Many_SomeD:
  assumes "rx_match (Many_Not c # its) s = Some (g, rest)"
  shows "\<exists>u v. s = u @ v \<and> u \<noteq> [] \<and> c \<notin> set u \<and> rx_match its v = Some (g, rest)"
proof -
  from assms obtain k where k: "k \<in> set (greedy_lengths c s)"
    and m: "rx_match its (drop k s) = Some (g, rest)"
    by (auto dest!: first_some_SomeD)
  have "s = take k s @ drop k s" by simp
  moreover have "take k s \<noteq> []" using greedy_lengths_D(1,2) [OF k] by auto
  moreover have "c \<notin> set (take k s)" by (rule greedy_lengths_D(3) [OF k])
  ultimately show ?thesis using m by blast
qed

lemma rx_match_Group_SomeD:
  assumes "rx_match (Group_Many_Not c # its) s = Some (g, rest)"
  shows "\<exists>v g'. s = g @ v \<and> g \<noteq> [] \<and> c \<notin> set g \<and> rx_match its v = Some (g', rest)"
proof -
  from assms obtain k where k: "k \<in> set (greedy_lengths c s)"
    and mk: "(case rx_match its (drop k s) of
               None \<Rightarrow> None | Some (g', rest') \<Rightarrow> Some (take k s, rest')) = Some (g, rest)"
    by (auto dest!: first_some_SomeD)
  from mk obtain g' where g: "g = take k s"
    and m: "rx_match its (drop k s) = Some (g', rest)"
    by (auto split: option.splits)
  have "s = g @ drop k s" using g by simp
  moreover have "g \<noteq> []" using greedy_lengths_D(1,2) [OF k] g by auto
  moreover have "c \<notin> set g" using greedy_lengths_D(3) [OF k] g by simp
  ultimately show ?thesis using m by blast
qed

lemma wikilink_match:
  assumes "rx_match wikilink_rx s = Some (g, rest)"
  shows "s = ''[['' @ g @ '']]'' @ rest \<and> g \<noteq> [] \<and> CHR '']'' \<notin> set g"
proof -
  from assms obtain s1 where s1: "s = CHR ''['' # CHR ''['' # s1"
    and m: "rx_match [Group_Many_Not CHR '']'', Lit CHR '']'', Lit CHR '']''] s1 = Some (g, rest)"
    unfolding wikilink_rx_def by (auto simp: rx_match_Lit_Some simp del: rx_match.simps)
  from rx_match_Group_SomeD [OF m] obtain v g' where v: "s1 = g @ v" "g \<noteq> []" "CHR '']'' \<notin> set g"
    and r: "rx_match [Lit CHR '']'', Lit CHR '']''] v = Some (g', rest)"
    by blast
  from r have "v = '']]'' @ rest"
    by (auto simp: rx_match_Lit_Some simp del: rx_match.simps(2))
  then show ?thesis using s1 v by simp
qed

lemma regular_link_match:
  assumes "rx_match regular_link_rx s = Some (g, rest)"
  shows "\<exists>u. s = ''['' @ g @ '']('' @ u @ '')'' @ rest \<and> g \<noteq> [] \<and> CHR '']'' \<notin> set g
           \<and> u \<noteq> [] \<and> CHR '')'' \<notin> set u"
proof -
  from assms obtain s1 where s1: "s = CHR ''['' # s1"
    and m: "rx_match [Group_Many_Not CHR '']'', Lit CHR '']'', Lit CHR ''('',
                      Many_Not CHR '')'', Lit CHR '')''] s1 = Some (g, rest)"
    unfolding regular_link_rx_def by (auto simp: rx_match_Lit_Some simp del: rx_match.simps)
  from rx_match_Group_SomeD [OF m] obtain v g' where v: "s1 = g @ v" "g \<noteq> []" "CHR '']'' \<notin> set g"
    and r: "rx_match [Lit CHR '']'', Lit CHR ''('', Many_Not CHR '')'', Lit CHR '')''] v
              = Some (g', rest)"
    by blast
  from r obtain s2 where d: "v = '']('' @ s2"
    and m2: "rx_match [Many_Not CHR '')'', Lit CHR '')''] s2 = Some (g', rest)"
    by (auto simp: rx_match_Lit_Some simp del: rx_match.simps)
  from rx_match_Many_SomeD [OF m2] obtain u w where u: "s2 = u @ w" "u \<noteq> []" "CHR '')'' \<notin> set u"
    and r2: "rx_match [Lit CHR '')''] w = Some (g', rest)"
    by blast
  from r2 have "w = '')'' @ rest"
    by (auto simp: rx_match_Lit_Some simp del: rx_match.simps(2))
  then have "s = ''['' @ g @ '']('' @ u @ '')'' @ rest"
    using s1 v d u by simp
  then show ?thesis using v u by blast
qed

lemma rx_match_suffix:
  "rx_match its s = Some (g, rest) \<Longrightarrow> \<exists>pre. s = pre @ rest"
proof (induction its arbitrary: s g)
  case Nil
  then show ?case by simp
next
  case (Cons it its)
  show ?case
  proof (cases it)
    case (Lit c)
    with Cons.prems obtain xs where "s = c # xs" "rx_match its xs = Some (g, rest)"
      by (auto simp: rx_match_Lit_Some simp del: rx_match.simps(2))
    with Cons.IH [of xs g] show ?thesis by (metis append_Cons)
  next
    case (Many_Not c)
    with Cons.prems rx_match_Many_SomeD [of c its s g rest]
    obtain u v where "s = u @ v" "rx_match its v = Some (g, rest)" by blast
    with Cons.IH [of v g] show ?thesis by (metis append.assoc)
  next
    case (Group_Many_Not c)
    with Cons.prems rx_match_Group_SomeD [of c its s g rest]
    obtain v g' where "s = g @ v" "rx_match its v = Some (g', rest)" by blast
    with Cons.IH [of v g'] show ?thesis by (metis append.assoc)
  qed
qed

lemma findall_elem:
  "t \<in> set (findall its s) \<Longrightarrow> \<exists>pre m rest. s = pre @ m \<and> rx_match its m = Some (t, rest)"
proof (induction its s rule: findall.induct)
  case (1 its s)
  show ?case
  proof (cases "rx_match its s")
    case None
    show ?thesis
    proof (cases s)
      case Nil
      with None "1.prems" show ?thesis by (simp add: findall.simps [of its "[]"])
    next
      case (Cons x xs)
      with None "1.prems" have "t \<in> set (findall its xs)"
        by (simp add: findall.simps [of its "x # xs"])
      from "1.IH"(1) [OF None Cons this]
      obtain pre m rest where "xs = pre @ m" "rx_match its m = Some (t, rest)" by blast
      then have "s = (x # pre) @ m \<and> rx_match its m = Some (t, rest)" using Cons by simp
      then show ?thesis by blast
    qed
  next
    case (Some p)
    obtain g rest where p: "p = (g, rest)" by (cases p)
    show ?thesis
    proof (cases "t = g")
      case True
      then have "s = [] @ s \<and> rx_match its s = Some (t, rest)" using Some p by simp
      then show ?thesis by blast
    next
      case False
      show ?thesis
      proof (cases "length rest < length s")
        case True
        with Some p False "1.prems" have "t \<in> set (findall its rest)"
          by (simp add: findall.simps [of its s])
        from "1.IH"(2) [OF Some p [symmetric] True this]
        obtain pre m r where pm: "rest = pre @ m" "rx_match its m = Some (t, r)" by blast
        from rx_match_suffix Some p obtain pre0 where "s = pre0 @ rest" by blast
        then have "s = (pre0 @ pre) @ m" using pm(1) by simp
        then show ?thesis using pm(2) by blast
      next
        case F: False
        show ?thesis
        proof (cases s)
          case Nil
          with Some p False F "1.prems" show ?thesis by (simp add: findall.simps [of its "[]"])
        next
          case (Cons x xs)
          with Some p False F "1.prems" have "t \<in> set (findall its xs)"
            by (simp add: findall.simps [of its "x # xs"])
          from "1.IH"(3) [OF Some p [symmetric] F Cons this]
          obtain pre m r where "xs = pre @ m" "rx_match its m = Some (t, r)" by blast
          then have "s = (x # pre) @ m \<and> rx_match its m = Some (t, r)" using Cons by simp
          then show ?thesis by blast
        qed
      qed
    qed
  qed
qed

subsection \<open>The analyzer returns\<close>

lemma analyze_total: "\<exists>sd. analyze_spectral_pattern c = Inr sd"
  by (simp add: analyze_spectral_pattern_def Let_def split_nl_not_Nil)

lemma analyze_projr: "analyze_spectral_pattern c = Inr (projr (analyze_spectral_pattern c))"
  using analyze_total [of c] by auto

subsection \<open>The descending stable sort\<close>

lemma mset_insort_desc: "mset (insort_desc k x ys) = add_mset x (mset ys)"
  by (induction ys) auto

lemma mset_sorted_reverse: "mset (sorted_reverse k xs) = mset xs"
  by (induction xs) (auto simp: mset_insort_desc)

lemma length_sorted_reverse: "length (sorted_reverse k xs) = length xs"
  using mset_sorted_reverse [of k xs] by (metis size_mset)

lemma set_insort_desc: "set (insort_desc k x ys) = insert x (set ys)"
  by (induction ys) auto

lemma sorted_insort_desc:
  "sorted_wrt (\<lambda>a b. k b \<le> k a) ys \<Longrightarrow> sorted_wrt (\<lambda>a b. k b \<le> k a) (insort_desc k x ys)"
  by (induction ys) (auto simp: set_insort_desc)

lemma sorted_sorted_reverse: "sorted_wrt (\<lambda>a b. k b \<le> k a) (sorted_reverse k xs)"
  by (induction xs) (auto simp: sorted_insort_desc)

lemma filter_insort_desc:
  "filter (\<lambda>y. k y = v) (insort_desc k x ys) =
     (if k x = v then x # filter (\<lambda>y. k y = v) ys else filter (\<lambda>y. k y = v) ys)"
  by (induction ys) auto

lemma filter_sorted_reverse:
  "filter (\<lambda>y. k y = v) (sorted_reverse k xs) = filter (\<lambda>y. k y = v) xs"
  by (induction xs) (auto simp: filter_insort_desc)

subsection \<open>The aligner's loop\<close>

lemma align_loop_eq:
  "align_loop nodes acc =
     Inr (acc @ map (\<lambda>n. aligned_node n (projr (analyze_spectral_pattern (content n)))) nodes)"
proof (induction nodes arbitrary: acc)
  case Nil
  then show ?case by simp
next
  case (Cons n nodes)
  obtain sd where sd: "analyze_spectral_pattern (content n) = Inr sd"
    using analyze_total by blast
  show ?case by (simp add: sd Cons.IH)
qed

lemma aligned_from_aligned_node:
  "aligned_from n (aligned_node n (projr (analyze_spectral_pattern (content n))))"
  using analyze_total [of "content n"] by (auto simp: aligned_from_def aligned_node_def)

lemma align_memory_nodes_eq:
  "align_memory_nodes nodes =
     Inr (sorted_reverse spectral_frequency
            (map (\<lambda>n. aligned_node n (projr (analyze_spectral_pattern (content n)))) nodes))"
  by (simp add: align_memory_nodes_def align_loop_eq)

lemma list_all2_aligned_from:
  "list_all2 aligned_from nodes
     (map (\<lambda>n. aligned_node n (projr (analyze_spectral_pattern (content n)))) nodes)"
  by (simp add: list_all2_conv_all_nth aligned_from_aligned_node)

lemma node_id_aligned_node: "node_id (aligned_node n sd) = node_id n"
  by (simp add: aligned_node_def)

lemma sorted_wrt_adjacent:
  "sorted_wrt R xs \<Longrightarrow> Suc i < length xs \<Longrightarrow> R (xs ! i) (xs ! Suc i)"
  by (simp add: sorted_wrt_iff_nth_less)

subsection \<open>The three example nodes\<close>

lemma align_abc: "align_memory_nodes [node_a, node_b, node_c] = Inr aligned_abc"
  by code_simp

subsection \<open>The code's tests and the specification's words\<close>

lemma count_lines_filter: "count_lines P ls = length (filter P ls)"
  by (simp add: count_lines_def length_filter_conv_card)

lemma first_char_is_hash_iff: "first_char_is_hash l = startswith_hash l"
  by (simp add: first_char_is_hash_def startswith_hash_iff)

lemma has_substring_iff: "has_substring sub l = str_in sub l"
  by (simp add: has_substring_def str_in_iff)

lemma has_link_marker_iff: "has_link_marker l = (str_in ''[['' l \<or> str_in '']('' l)"
  by (simp add: has_link_marker_def has_substring_iff)

lemma hash_anywhere_iff: "hash_anywhere l = str_in ''#'' l"
  by (simp add: hash_anywhere_def str_in_hash_iff in_set_conv_nth)

lemma hash_beyond_first_iff: "hash_beyond_first l = (CHR ''#'' \<in> set (tl l))"
proof (cases l)
  case Nil
  then show ?thesis by (simp add: hash_beyond_first_def)
next
  case (Cons x xs)
  have "(\<exists>i. 0 < i \<and> i < Suc (length xs) \<and> (x # xs) ! i = CHR ''#'')
          \<longleftrightarrow> (\<exists>j. j < length xs \<and> xs ! j = CHR ''#'')"
  proof
    assume "\<exists>i. 0 < i \<and> i < Suc (length xs) \<and> (x # xs) ! i = CHR ''#''"
    then obtain i where i: "0 < i" "i < Suc (length xs)" "(x # xs) ! i = CHR ''#''" by blast
    then obtain j where "i = Suc j" by (cases i) auto
    with i have "j < length xs \<and> xs ! j = CHR ''#''" by simp
    then show "\<exists>j. j < length xs \<and> xs ! j = CHR ''#''" by blast
  next
    assume "\<exists>j. j < length xs \<and> xs ! j = CHR ''#''"
    then obtain j where "j < length xs" "xs ! j = CHR ''#''" by blast
    then have "0 < Suc j \<and> Suc j < Suc (length xs) \<and> (x # xs) ! Suc j = CHR ''#''" by simp
    then show "\<exists>i. 0 < i \<and> i < Suc (length xs) \<and> (x # xs) ! i = CHR ''#''" by blast
  qed
  with Cons show ?thesis by (simp add: hash_beyond_first_def in_set_conv_nth)
qed

lemma has_substring_trans:
  "has_substring t l \<Longrightarrow> has_substring l c \<Longrightarrow> has_substring t c"
proof -
  assume "has_substring t l" "has_substring l c"
  then obtain a b a' b' where "l = a @ t @ b" "c = a' @ l @ b'"
    by (auto simp: has_substring_def)
  then have "c = (a' @ a) @ t @ (b @ b')" by simp
  then show ?thesis unfolding has_substring_def by blast
qed

subsection \<open>The labels that the two patterns capture\<close>

lemma findall_wikilink_label:
  assumes "t \<in> set (findall wikilink_rx l)"
  shows "wikilink_label l t"
proof -
  from findall_elem [OF assms] obtain pre m rest
    where l: "l = pre @ m" and m: "rx_match wikilink_rx m = Some (t, rest)" by blast
  from wikilink_match [OF m] have "m = (''[['' @ t @ '']]'') @ rest" by simp
  with l have "l = pre @ (''[['' @ t @ '']]'') @ rest" by simp
  then show ?thesis unfolding wikilink_label_def has_substring_def by blast
qed

lemma findall_inline_link_label:
  assumes "t \<in> set (findall regular_link_rx l)"
  shows "inline_link_label l t"
proof -
  from findall_elem [OF assms] obtain pre m rest
    where l: "l = pre @ m" and m: "rx_match regular_link_rx m = Some (t, rest)" by blast
  from regular_link_match [OF m] obtain u
    where "m = (''['' @ t @ '']('' @ u @ '')'') @ rest" by auto
  with l have "l = pre @ (''['' @ t @ '']('' @ u @ '')'') @ rest" by simp
  then show ?thesis unfolding inline_link_label_def has_substring_def by blast
qed

lemma set_collect_threads:
  "set (collect_threads ls acc) =
     set acc \<union> (\<Union>l\<in>set ls. set (findall wikilink_rx l) \<union> set (findall regular_link_rx l))"
  by (induction ls arbitrary: acc) auto

lemma label_of_line:
  assumes "l \<in> set (split_nl c)"
  shows "wikilink_label l t \<Longrightarrow> wikilink_label c t"
    and "inline_link_label l t \<Longrightarrow> inline_link_label c t"
proof -
  from split_nl_infix [OF assms] have lc: "has_substring l c"
    by (simp add: has_substring_def)
  show "wikilink_label l t \<Longrightarrow> wikilink_label c t"
    unfolding wikilink_label_def using lc by (blast intro: has_substring_trans)
  show "inline_link_label l t \<Longrightarrow> inline_link_label c t"
    unfolding inline_link_label_def using lc by (blast intro: has_substring_trans)
qed

subsection \<open>The example and the empty string\<close>

lemma analyze_example: "analyze_spectral_pattern example_content = Inr example_analysis"
  by code_simp

lemma split_example:
  "split_nl example_content = [''# Title'', ''See [[Concept]] and [label](url)'', ''#tag here'']"
  by code_simp

lemma counts_example:
  "heading_count (split_nl example_content) = 2"
  "link_count (split_nl example_content) = 1"
  "tag_count (split_nl example_content) = 0"
  by code_simp+

lemma analyze_empty: "analyze_spectral_pattern [] = Inr empty_analysis"
  by code_simp

subsection \<open>The loop that builds the nodes\<close>

lemma marley_nodes_loop_ids:
  "map (\<lambda>n. (node_id n, content n)) (fst (marley_nodes_loop clock t rs acc)) =
     map (\<lambda>n. (node_id n, content n)) acc
       @ map (\<lambda>r. (record_id r, the (record_fields r ''Content''))) (filter has_content rs)"
  by (induction rs arbitrary: t acc) (auto simp: has_content_def split: option.splits)

lemma marley_nodes_loop_status:
  "n \<in> set (fst (marley_nodes_loop clock t rs acc)) \<Longrightarrow>
     n \<in> set acc \<or> (harmonization_status n = ''pending'' \<and> source n = ''marley'')"
proof (induction rs arbitrary: t acc)
  case Nil
  then show ?case by simp
next
  case (Cons r rs)
  show ?case
  proof (cases "record_fields r ''Content''")
    case None
    with Cons.prems have "n \<in> set (fst (marley_nodes_loop clock t rs acc))" by simp
    then show ?thesis by (rule Cons.IH)
  next
    case (Some c)
    let ?new = "\<lparr> node_id = record_id r, content = c,
                   markdown_format =
                     (case record_fields r ''Format'' of None \<Rightarrow> ''unknown'' | Some f \<Rightarrow> f),
                   spectral_frequency = 0, resonance_threads = [], timestamp = clock t,
                   source = ''marley'', harmonization_status = ''pending'' \<rparr>"
    from Some Cons.prems
    have "n \<in> set (fst (marley_nodes_loop clock (Suc t) rs (acc @ [?new])))" by simp
    from Cons.IH [OF this] show ?thesis by auto
  qed
qed

lemma build_records_123:
  "build_marley_nodes (\<lambda>t. 100 + t) [record_1, record_2, record_3] =
     [\<lparr> node_id = ''rec1'', content = ''# One'', markdown_format = ''obsidian'',
        spectral_frequency = 0, resonance_threads = [], timestamp = 100,
        source = ''marley'', harmonization_status = ''pending'' \<rparr>,
      \<lparr> node_id = ''rec3'', content = ''three'', markdown_format = ''unknown'',
        spectral_frequency = 0, resonance_threads = [], timestamp = 101,
        source = ''marley'', harmonization_status = ''pending'' \<rparr>]"
  by (simp add: build_marley_nodes_def record_1_def record_2_def record_3_def)

subsection \<open>The handler of the harmonization\<close>

lemma harmonize_try_failure:
  "create (harmonize_prompt c f) = Inl e \<Longrightarrow> harmonize_try create now c f = Inl e"
  by (simp add: harmonize_try_def)

lemma harmonize_no_exception_propagates:
  "harmonize_markdown_content create now c f \<noteq> Inl (Raised_Exception e)"
  by (simp add: harmonize_markdown_content_def split: sum.splits raised.splits)

lemma harmonize_fallback_content:
  "harmonize_markdown_content create now c f = Inr (Fallback e c') \<Longrightarrow> c' = c"
  by (auto simp: harmonize_markdown_content_def harmonize_try_def
           split: sum.splits raised.splits list.splits content_block.splits py_error.splits)

section \<open>The structural analyzer\<close>

text \<open>
  C1, as stated, is false: the code does not count a line that starts with \<^verbatim>\<open>#\<close>
  among the tag lines, so no line counts toward both \<open>H\<close> and \<open>T\<close>. The content
  \<^verbatim>\<open>##\<close> is one line that starts with \<^verbatim>\<open>#\<close> and has a \<^verbatim>\<open>#\<close> at position 1: the code
  returns the score \<open>2\<close>, the formula of the claim gives \<open>5/2\<close>.
\<close>

theorem claimed_frequency_counterexample:
  "analyze_spectral_pattern ''##'' =
     Inr \<lparr> sd_spectral_frequency = 2, sd_resonance_threads = [],
           structural_depth = 1, connection_density = 0 \<rparr>
   \<and> claimed_spectral_frequency ''##'' = 5 / 2
   \<and> sd_spectral_frequency (projr (analyze_spectral_pattern ''##''))
        \<noteq> claimed_spectral_frequency ''##''"
proof -
  have a: "analyze_spectral_pattern ''##'' =
     Inr \<lparr> sd_spectral_frequency = 2, sd_resonance_threads = [],
           structural_depth = 1, connection_density = 0 \<rparr>"
    by code_simp
  have s: "split_nl ''##'' = [''##'']" by code_simp
  have c: "claimed_spectral_frequency ''##'' = 5 / 2"
    by (simp add: claimed_spectral_frequency_def s count_lines_filter first_char_is_hash_iff
          has_link_marker_iff hash_beyond_first_iff)
  from a c show ?thesis by simp
qed

text \<open>
  C1, amended. For every content string (each has at least one line) the analyzer
  returns, and the score it returns is \<open>(H * 2 + L + T * 0.5) / N\<close>, where \<open>N\<close> is the
  number of newline-separated lines of the content (one more than the number of its
  newlines), \<open>H\<close> the number of lines whose first character is \<^verbatim>\<open>#\<close>, \<open>L\<close> the number
  of lines that contain \<^verbatim>\<open>[[\<close> or \<^verbatim>\<open>](\<close>, and \<open>T\<close> the number of lines that contain
  a \<^verbatim>\<open>#\<close> and do not start with one.
\<close>

theorem analyze_spectral_frequency:
  "\<exists>sd. analyze_spectral_pattern c = Inr sd
     \<and> sd_spectral_frequency sd =
         (of_nat (count_lines first_char_is_hash (split_nl c)) * 2
            + of_nat (count_lines has_link_marker (split_nl c))
            + of_nat (count_lines (\<lambda>l. hash_anywhere l \<and> \<not> first_char_is_hash l) (split_nl c))
                * (1 / 2))
           / of_nat (length (split_nl c))
     \<and> length (split_nl c) = Suc (length (filter (\<lambda>x. x = CHR 0x0A) c))"
proof -
  have h: "count_lines first_char_is_hash (split_nl c) = heading_count (split_nl c)"
    by (simp add: count_lines_filter heading_count_def first_char_is_hash_iff [abs_def])
  have l: "count_lines has_link_marker (split_nl c) = link_count (split_nl c)"
    by (simp add: count_lines_filter link_count_def has_link_marker_iff [abs_def])
  have t: "count_lines (\<lambda>l. hash_anywhere l \<and> \<not> first_char_is_hash l) (split_nl c)
             = tag_count (split_nl c)"
    by (simp add: count_lines_filter tag_count_def hash_anywhere_iff first_char_is_hash_iff)
  show ?thesis
    unfolding h l t
    by (simp add: analyze_spectral_pattern_def Let_def split_nl_not_Nil length_split_nl)
qed

text \<open>
  C2, as stated, is false: on the example the code counts two heading lines (the third
  line starts with \<^verbatim>\<open>#\<close> too), one link line (both links are on the second line)
  and no tag line, so the depth is not 1, the density not \<open>2/3\<close> and the score not
  \<open>3/2\<close>.
\<close>

theorem example_counts_counterexample:
  "heading_count (split_nl example_content) \<noteq> 1
   \<and> link_count (split_nl example_content) \<noteq> 2
   \<and> tag_count (split_nl example_content) \<noteq> 1
   \<and> structural_depth (projr (analyze_spectral_pattern example_content)) \<noteq> 1
   \<and> connection_density (projr (analyze_spectral_pattern example_content)) \<noteq> 2 / 3
   \<and> sd_spectral_frequency (projr (analyze_spectral_pattern example_content)) \<noteq> 3 / 2"
  by (simp add: counts_example analyze_example example_analysis_def)

text \<open>
  C2, amended. The example has 3 lines; the code computes \<open>heading_count = 2\<close>,
  \<open>link_count = 1\<close> and \<open>tag_count = 0\<close>, and returns the depth 2, the density
  \<open>1/3\<close>, the score \<open>(2 * 2 + 1 + 0 * 0.5) / 3 = 5/3\<close> and exactly the threads
  \<^verbatim>\<open>Concept\<close> and \<^verbatim>\<open>label\<close>, each once.
\<close>

theorem example_analysis_values:
  "length (split_nl example_content) = 3
   \<and> heading_count (split_nl example_content) = 2
   \<and> link_count (split_nl example_content) = 1
   \<and> tag_count (split_nl example_content) = 0
   \<and> (\<exists>sd. analyze_spectral_pattern example_content = Inr sd
         \<and> structural_depth sd = 2
         \<and> connection_density sd = 1 / 3
         \<and> sd_spectral_frequency sd = (2 * 2 + 1 + 0 * (1 / 2)) / 3
         \<and> sd_spectral_frequency sd = 5 / 3
         \<and> set (sd_resonance_threads sd) = {''Concept'', ''label''}
         \<and> distinct (sd_resonance_threads sd))"
proof -
  have len: "length (split_nl example_content) = 3"
    by (simp add: split_example)
  have "structural_depth example_analysis = 2
         \<and> connection_density example_analysis = 1 / 3
         \<and> sd_spectral_frequency example_analysis = (2 * 2 + 1 + 0 * (1 / 2)) / 3
         \<and> sd_spectral_frequency example_analysis = 5 / 3
         \<and> set (sd_resonance_threads example_analysis) = {''Concept'', ''label''}
         \<and> distinct (sd_resonance_threads example_analysis)"
    by (simp add: example_analysis_def)
  with analyze_example len counts_example show ?thesis by blast
qed

text \<open>
  C3, as stated, is false: splitting the empty string gives one line, the empty one,
  and the analyzer does not raise on it.
\<close>

theorem empty_content_counterexample:
  "length (split_nl []) \<noteq> 0 \<and> analyze_spectral_pattern [] \<noteq> Inl ZeroDivisionError"
  by (simp add: analyze_empty)

text \<open>
  C3, amended. The analyzer splits the empty string into one empty line (the line
  count is 1) and returns a defined result: score 0, no thread, depth 0, density 0.
  No content has a line count of zero, so the division never raises.
\<close>

theorem analyze_empty_defined:
  "split_nl [] = [[]]
   \<and> length (split_nl []) = 1
   \<and> analyze_spectral_pattern [] =
        Inr \<lparr> sd_spectral_frequency = 0, sd_resonance_threads = [],
              structural_depth = 0, connection_density = 0 \<rparr>
   \<and> (\<forall>c. length (split_nl c) \<noteq> 0 \<and> analyze_spectral_pattern c \<noteq> Inl ZeroDivisionError)"
proof -
  have "analyze_spectral_pattern c \<noteq> Inl ZeroDivisionError" for c
    using analyze_total [of c] by auto
  then show ?thesis
    by (simp add: analyze_empty empty_analysis_def split_nl_not_Nil)
qed

text \<open>
  C4. For every content string the analyzer returns, every thread it returns is a
  label that stands in the content between \<^verbatim>\<open>[[\<close> and \<^verbatim>\<open>]]\<close>, or between \<^verbatim>\<open>[\<close> and
  \<^verbatim>\<open>](\<close> followed by some text and \<^verbatim>\<open>)\<close>, and no thread is returned twice.
\<close>

theorem analyze_threads_literal:
  "\<exists>sd. analyze_spectral_pattern c = Inr sd
     \<and> (\<forall>t\<in>set (sd_resonance_threads sd). wikilink_label c t \<or> inline_link_label c t)
     \<and> distinct (sd_resonance_threads sd)"
proof -
  let ?ths = "list_of_set (collect_threads (split_nl c) [])"
  have "wikilink_label c t \<or> inline_link_label c t" if "t \<in> set ?ths" for t
  proof -
    from that obtain l where l: "l \<in> set (split_nl c)"
      and t: "t \<in> set (findall wikilink_rx l) \<or> t \<in> set (findall regular_link_rx l)"
      by (auto simp: list_of_set_def set_collect_threads)
    from t show ?thesis
      using findall_wikilink_label findall_inline_link_label label_of_line [OF l] by blast
  qed
  moreover have "distinct ?ths" by (simp add: list_of_set_def)
  ultimately show ?thesis
    by (simp add: analyze_spectral_pattern_def Let_def split_nl_not_Nil)
qed

text \<open>The instance of C4 at the example: \<^verbatim>\<open>Concept\<close> is one of its threads, and it
  stands in the example as a label.\<close>

theorem analyze_threads_literal_witness:
  "analyze_spectral_pattern example_content = Inr example_analysis
     \<and> ''Concept'' \<in> set (sd_resonance_threads example_analysis)
     \<and> (wikilink_label example_content ''Concept''
          \<or> inline_link_label example_content ''Concept'')"
proof -
  from analyze_threads_literal [of example_content]
  obtain sd where sd: "analyze_spectral_pattern example_content = Inr sd"
    and lab: "\<forall>t\<in>set (sd_resonance_threads sd).
                wikilink_label example_content t \<or> inline_link_label example_content t"
    by blast
  from sd have eq: "sd = example_analysis" by (simp add: analyze_example)
  have mem: "''Concept'' \<in> set (sd_resonance_threads example_analysis)"
    by (simp add: example_analysis_def)
  with lab eq
  have "wikilink_label example_content ''Concept''
          \<or> inline_link_label example_content ''Concept''"
    by blast
  with analyze_example mem show ?thesis by blast
qed

section \<open>The node aligner\<close>

text \<open>
  C5. For every input sequence of nodes the aligner returns a sequence (it never raises)
  that is sorted in non-increasing order of \<open>spectral_frequency\<close>: every earlier node's
  score is at least every later node's, and in particular each node's score is at
  least that of the node right after it.
\<close>

theorem align_sorted_descending:
  "\<exists>out. align_memory_nodes nodes = Inr out
     \<and> sorted_wrt (\<lambda>a b. spectral_frequency b \<le> spectral_frequency a) out
     \<and> (\<forall>i. Suc i < length out \<longrightarrow>
            spectral_frequency (out ! Suc i) \<le> spectral_frequency (out ! i))"
proof -
  define out where "out = sorted_reverse spectral_frequency
     (map (\<lambda>n. aligned_node n (projr (analyze_spectral_pattern (content n)))) nodes)"
  have 1: "align_memory_nodes nodes = Inr out"
    by (simp add: out_def align_memory_nodes_eq)
  have 2: "sorted_wrt (\<lambda>a b. spectral_frequency b \<le> spectral_frequency a) out"
    unfolding out_def by (rule sorted_sorted_reverse)
  have 3: "\<forall>i. Suc i < length out \<longrightarrow>
            spectral_frequency (out ! Suc i) \<le> spectral_frequency (out ! i)"
    using sorted_wrt_adjacent [OF 2] by blast
  from 1 2 3 show ?thesis by blast
qed

text \<open>The instance of C5 at the three example nodes: the first two output nodes are
  adjacent, and the second one's score is not greater than the first one's.\<close>

theorem align_sorted_descending_witness:
  "align_memory_nodes [node_a, node_b, node_c] = Inr aligned_abc
     \<and> Suc 0 < length aligned_abc
     \<and> spectral_frequency (aligned_abc ! Suc 0) \<le> spectral_frequency (aligned_abc ! 0)"
proof -
  from align_sorted_descending [of "[node_a, node_b, node_c]"]
  obtain out where o: "align_memory_nodes [node_a, node_b, node_c] = Inr out"
    and adj: "\<forall>i. Suc i < length out \<longrightarrow>
                spectral_frequency (out ! Suc i) \<le> spectral_frequency (out ! i)"
    by blast
  from o have out: "out = aligned_abc" by (simp add: align_abc)
  have len: "Suc 0 < length aligned_abc" by (simp add: aligned_abc_def)
  with adj out
  have "spectral_frequency (aligned_abc ! Suc 0) \<le> spectral_frequency (aligned_abc ! 0)"
    by blast
  with len show ?thesis by (simp add: align_abc)
qed

text \<open>
  C6. For every input sequence of nodes the aligner returns a sequence of the same
  length, and the multiset of the ids of the output nodes is the multiset of the ids of
  the input nodes: no node is dropped, added or given another id.
\<close>

theorem align_preserves_ids:
  "\<exists>out. align_memory_nodes nodes = Inr out
     \<and> length out = length nodes
     \<and> mset (map node_id out) = mset (map node_id nodes)"
proof -
  let ?xs = "map (\<lambda>n. aligned_node n (projr (analyze_spectral_pattern (content n)))) nodes"
  have "mset (map node_id (sorted_reverse spectral_frequency ?xs)) = mset (map node_id ?xs)"
    by (metis mset_map mset_sorted_reverse)
  also have "map node_id ?xs = map node_id nodes"
    by (simp add: node_id_aligned_node)
  finally show ?thesis
    by (simp add: align_memory_nodes_eq length_sorted_reverse)
qed

text \<open>
  C7. The output of the aligner is a rearrangement of a sequence \<open>xs\<close> that has, at
  each position, the node that comes from the input node at that position: id,
  content, format, timestamp and source are those of the input node, the score and the
  threads are those of the analysis of its content, and the status is \<^verbatim>\<open>aligned\<close>. In
  particular every output node has the status \<^verbatim>\<open>aligned\<close>, whatever the status of the
  input node was.
\<close>

theorem align_frame:
  "\<exists>out xs. align_memory_nodes nodes = Inr out
     \<and> list_all2 aligned_from nodes xs
     \<and> mset out = mset xs
     \<and> (\<forall>m\<in>set out. harmonization_status m = ''aligned'')"
proof -
  let ?xs = "map (\<lambda>n. aligned_node n (projr (analyze_spectral_pattern (content n)))) nodes"
  let ?out = "sorted_reverse spectral_frequency ?xs"
  have m: "mset ?out = mset ?xs" by (rule mset_sorted_reverse)
  then have "set ?out = set ?xs" by (rule mset_eq_setD)
  then have "\<forall>m\<in>set ?out. harmonization_status m = ''aligned''"
    by (auto simp: aligned_node_def)
  with m list_all2_aligned_from [of nodes] align_memory_nodes_eq [of nodes]
  show ?thesis by blast
qed

text \<open>The instance of C7 at the three example nodes: the first output node is
  \<^verbatim>\<open>aligned\<close>; of the input nodes, one was \<^verbatim>\<open>aligned\<close> already and one was
  \<^verbatim>\<open>pending\<close>.\<close>

theorem align_frame_witness:
  "align_memory_nodes [node_a, node_b, node_c] = Inr aligned_abc
     \<and> aligned_abc ! 0 \<in> set aligned_abc
     \<and> harmonization_status (aligned_abc ! 0) = ''aligned''
     \<and> harmonization_status node_b = ''aligned''
     \<and> harmonization_status node_a = ''pending''"
proof -
  from align_frame [of "[node_a, node_b, node_c]"]
  obtain out where o: "align_memory_nodes [node_a, node_b, node_c] = Inr out"
    and st: "\<forall>m\<in>set out. harmonization_status m = ''aligned''"
    by blast
  from o have out: "out = aligned_abc" by (simp add: align_abc)
  have mem: "aligned_abc ! 0 \<in> set aligned_abc" by (simp add: aligned_abc_def)
  with st out have al: "harmonization_status (aligned_abc ! 0) = ''aligned''" by blast
  have b: "harmonization_status node_b = ''aligned''" by (simp add: node_b_def)
  have a: "harmonization_status node_a = ''pending''" by (simp add: node_a_def)
  from align_abc mem al b a show ?thesis by blast
qed

text \<open>
  C10. The aligner breaks ties stably. With \<open>xs\<close> the aligned nodes in the order of the
  input (as in C7), the output nodes that have a given score \<open>v\<close> are the nodes of \<open>xs\<close>
  that have the score \<open>v\<close>, in the same order: two nodes with equal scores stand in the
  output in the order in which they stood in the input.
\<close>

theorem align_stable:
  "\<exists>out xs. align_memory_nodes nodes = Inr out
     \<and> list_all2 aligned_from nodes xs
     \<and> (\<forall>v. filter (\<lambda>m. spectral_frequency m = v) out
              = filter (\<lambda>m. spectral_frequency m = v) xs)"
proof -
  let ?xs = "map (\<lambda>n. aligned_node n (projr (analyze_spectral_pattern (content n)))) nodes"
  let ?out = "sorted_reverse spectral_frequency ?xs"
  have "\<forall>v. filter (\<lambda>m. spectral_frequency m = v) ?out
              = filter (\<lambda>m. spectral_frequency m = v) ?xs"
    by (simp add: filter_sorted_reverse)
  with list_all2_aligned_from [of nodes] align_memory_nodes_eq [of nodes]
  show ?thesis by blast
qed

section \<open>The nodes of a synchronization run\<close>

text \<open>
  C9. For every list of fetched records, the nodes built from them are, in order, one
  node for each record that has a \<^verbatim>\<open>Content\<close> field, with that record's id and
  content; a record without the field gives no node. Every node built has the status
  \<^verbatim>\<open>pending\<close> and the source \<^verbatim>\<open>marley\<close>; these are the nodes handed to the aligner.
\<close>

theorem build_marley_nodes_per_record:
  "map (\<lambda>n. (node_id n, content n)) (build_marley_nodes clock rs) =
     map (\<lambda>r. (record_id r, the (record_fields r ''Content''))) (filter has_content rs)
   \<and> length (build_marley_nodes clock rs) = length (filter has_content rs)
   \<and> (\<forall>n\<in>set (build_marley_nodes clock rs).
         harmonization_status n = ''pending'' \<and> source n = ''marley'')"
proof -
  have ids: "map (\<lambda>n. (node_id n, content n)) (build_marley_nodes clock rs) =
     map (\<lambda>r. (record_id r, the (record_fields r ''Content''))) (filter has_content rs)"
    using marley_nodes_loop_ids [of clock 0 rs "[]"] by (simp add: build_marley_nodes_def)
  then have "length (map (\<lambda>n. (node_id n, content n)) (build_marley_nodes clock rs)) =
     length (map (\<lambda>r. (record_id r, the (record_fields r ''Content''))) (filter has_content rs))"
    by simp
  then have len: "length (build_marley_nodes clock rs) = length (filter has_content rs)"
    by simp
  have st: "\<forall>n\<in>set (build_marley_nodes clock rs).
         harmonization_status n = ''pending'' \<and> source n = ''marley''"
    using marley_nodes_loop_status [of _ clock 0 rs "[]"] by (auto simp: build_marley_nodes_def)
  from ids len st show ?thesis by blast
qed

text \<open>The instance of C9 at three records, of which the second has no content: two
  nodes are built, and the first of them is \<^verbatim>\<open>pending\<close> and from \<^verbatim>\<open>marley\<close>.\<close>

theorem build_marley_nodes_per_record_witness:
  "length (build_marley_nodes (\<lambda>t. 100 + t) [record_1, record_2, record_3]) = 2
   \<and> hd (build_marley_nodes (\<lambda>t. 100 + t) [record_1, record_2, record_3])
        \<in> set (build_marley_nodes (\<lambda>t. 100 + t) [record_1, record_2, record_3])
   \<and> harmonization_status (hd (build_marley_nodes (\<lambda>t. 100 + t) [record_1, record_2, record_3]))
        = ''pending''
   \<and> source (hd (build_marley_nodes (\<lambda>t. 100 + t) [record_1, record_2, record_3])) = ''marley''"
proof -
  let ?ns = "build_marley_nodes (\<lambda>t. 100 + t) [record_1, record_2, record_3]"
  have len: "length ?ns = 2" by (simp add: build_records_123)
  have mem: "hd ?ns \<in> set ?ns" by (simp add: build_records_123)
  from build_marley_nodes_per_record [of "\<lambda>t. 100 + t" "[record_1, record_2, record_3]"]
  have "\<forall>n\<in>set ?ns. harmonization_status n = ''pending'' \<and> source n = ''marley''"
    by blast
  with mem have "harmonization_status (hd ?ns) = ''pending'' \<and> source (hd ?ns) = ''marley''"
    by blast
  with len mem show ?thesis by blast
qed

section \<open>Harmonization\<close>

text \<open>
  C8. When the collaborator's call raises an exception \<open>e\<close> of the class
  \<^verbatim>\<open>Exception\<close>, which every failure belongs to, \<^verbatim>\<open>harmonize_markdown_content\<close>
  returns normally: its result is the error payload that holds the text of \<open>e\<close> and, as
  fallback content, the content it was given, unchanged.
\<close>

theorem harmonize_failure_caught:
  assumes "create (harmonize_prompt c f) = Inl (Raised_Exception e)"
  shows "harmonize_markdown_content create now c f = Inr (Fallback e c)
         \<and> error (Fallback e c) = e \<and> fallback_content (Fallback e c) = c"
  using assms by (simp add: harmonize_markdown_content_def harmonize_try_failure)

text \<open>The instance of C8 at a collaborator that fails with \<^verbatim>\<open>overloaded\<close>.\<close>

theorem harmonize_failure_caught_witness:
  "failing_create (harmonize_prompt ''# a'' ''obsidian'') = Inl (Raised_Exception ''overloaded'')
   \<and> harmonize_markdown_content failing_create ''2026'' ''# a'' ''obsidian''
       = Inr (Fallback ''overloaded'' ''# a'')"
proof -
  have h: "failing_create (harmonize_prompt ''# a'' ''obsidian'')
             = Inl (Raised_Exception ''overloaded'')"
    by (simp add: failing_create_def)
  from harmonize_failure_caught
         [of failing_create "''# a''" "''obsidian''" "''overloaded''" "''2026''", OF h]
  have "harmonize_markdown_content failing_create ''2026'' ''# a'' ''obsidian''
          = Inr (Fallback ''overloaded'' ''# a'')"
    by blast
  with h show ?thesis by blast
qed

end
